theory Spec2Isabelle
  imports Main "HOL-Library.Word" "HOL-Library.Multiset"
begin

unbundle bit_operations_syntax

section \<open>The task store of internal/task/model.go\<close>

subsection \<open>Data model\<close>

text \<open>
  The Go struct \<^verbatim>\<open>Task\<close>. \<^verbatim>\<open>Date\<close> is an \<^verbatim>\<open>int64\<close> (compared as a signed
  number), \<^verbatim>\<open>Priority\<close> a \<^verbatim>\<open>byte\<close> (compared as an unsigned number).
  \<^verbatim>\<open>ID\<close> has Go's type \<^verbatim>\<open>int\<close>, a signed 64-bit integer on the usual targets:
  it is modelled as an integer, and the one place where the package does arithmetic on
  it, \<^verbatim>\<open>m.nextID++\<close>, wraps around as Go's signed addition does (\<open>int_wrap\<close>).
\<close>

definition int_wrap :: "int \<Rightarrow> int" where
  "int_wrap x = (x + 2 ^ 63) mod 2 ^ 64 - 2 ^ 63"

record Task =
  ID :: int
  Title :: string
  Date :: "64 word"
  Note :: string
  Priority :: "8 word"
  Done :: bool

text \<open>The three error values exported by the package.\<close>

datatype error = ErrCreateEmptyTitle | ErrUpdateUnknown | ErrDeleteUnknown

text \<open>
  A Go slice of tasks is either the \<^verbatim>\<open>nil\<close> slice (\<open>None\<close>) or a non-nil slice with
  its elements (\<open>Some xs\<close>, where \<open>xs\<close> may be empty). The difference is visible in
  the JSON encoding. Tasks are held by value: the model does not cover a caller that
  writes through a \<^verbatim>\<open>*Task\<close> it obtained from the store (the HTTP handlers never do).
\<close>

type_synonym slice = "Task list option"

fun elems :: "slice \<Rightarrow> Task list" where
  "elems None = []"
| "elems (Some xs) = xs"

text \<open>\<^verbatim>\<open>append(s, x)\<close>: the result is never nil.\<close>

definition append1 :: "slice \<Rightarrow> Task \<Rightarrow> slice" where
  "append1 s x = Some (elems s @ [x])"

text \<open>The struct \<^verbatim>\<open>inMemory\<close>; \<^verbatim>\<open>NewManager\<close> returns its zero value.\<close>

record inMemory =
  tasks :: slice
  nextID :: int

definition NewManager :: inMemory where
  "NewManager = \<lparr>tasks = None, nextID = 0\<rparr>"

subsection \<open>Store operations\<close>

text \<open>
  \<^verbatim>\<open>Create\<close>: the new task has the given title and zero values elsewhere. The result
  is the returned pair (task or error) together with the store afterwards.
\<close>

definition inMemory_Create :: "inMemory \<Rightarrow> string \<Rightarrow> (error + Task) \<times> inMemory" where
  "inMemory_Create m title =
     (if title = [] then (Inl ErrCreateEmptyTitle, m)
      else
        (let t = \<lparr>ID = nextID m, Title = title, Date = 0, Note = [], Priority = 0, Done = False\<rparr>
         in (Inr t, m\<lparr>tasks := append1 (tasks m) t, nextID := int_wrap (nextID m + 1)\<rparr>)))"

text \<open>\<^verbatim>\<open>Find\<close>: the first task with the identifier, in slice order.\<close>

fun Find_loop :: "Task list \<Rightarrow> int \<Rightarrow> Task option" where
  "Find_loop [] id' = None"
| "Find_loop (t # ts) id' = (if ID t = id' then Some t else Find_loop ts id')"

definition inMemory_Find :: "inMemory \<Rightarrow> int \<Rightarrow> Task option" where
  "inMemory_Find m id' = Find_loop (elems (tasks m)) id'"

definition inMemory_All :: "inMemory \<Rightarrow> slice" where
  "inMemory_All m = tasks m"

text \<open>
  \<^verbatim>\<open>Update\<close> and \<^verbatim>\<open>Delete\<close> run the same loop
  \<^verbatim>\<open>for i, t := range m.tasks { if t.ID == id { ... return nil } }\<close>:
  \<open>range_index\<close> is the index \<open>i\<close> at which the body runs, if any.
\<close>

fun range_index :: "Task list \<Rightarrow> int \<Rightarrow> nat option" where
  "range_index [] id' = None"
| "range_index (t # ts) id' =
     (if ID t = id' then Some 0 else map_option Suc (range_index ts id'))"

text \<open>\<^verbatim>\<open>Update\<close>: \<^verbatim>\<open>m.tasks[i] = &c\<close> where \<^verbatim>\<open>c\<close> is a copy of the argument.\<close>

definition inMemory_Update :: "inMemory \<Rightarrow> Task \<Rightarrow> error option \<times> inMemory" where
  "inMemory_Update m task =
     (case range_index (elems (tasks m)) (ID task) of
        Some i \<Rightarrow> (None, m\<lparr>tasks := Some ((elems (tasks m))[i := task])\<rparr>)
      | None \<Rightarrow> (Some ErrUpdateUnknown, m))"

text \<open>
  \<^verbatim>\<open>Delete\<close>: \<^verbatim>\<open>m.tasks = append(m.tasks[:i], m.tasks[i+1:]...)\<close>; the second
  assignment of the statement clears the slot behind the new length, which the shorter
  slice no longer shows. The result of the append is not nil.
\<close>

definition inMemory_Delete :: "inMemory \<Rightarrow> int \<Rightarrow> error option \<times> inMemory" where
  "inMemory_Delete m id' =
     (case range_index (elems (tasks m)) id' of
        Some i \<Rightarrow> (None, m\<lparr>tasks := Some (take i (elems (tasks m)) @ drop (Suc i) (elems (tasks m)))\<rparr>)
      | None \<Rightarrow> (Some ErrDeleteUnknown, m))"

definition inMemory_Count :: "inMemory \<Rightarrow> nat" where
  "inMemory_Count m = length (elems (tasks m))"

subsection \<open>Sorting and filtering\<close>

text \<open>
  \<^verbatim>\<open>type Sort func(t1, t2 *Task) bool\<close> and \<^verbatim>\<open>type Filter func(t *Task) bool\<close>.
\<close>

type_synonym Sort = "Task \<Rightarrow> Task \<Rightarrow> bool"

type_synonym Filter = "Task \<Rightarrow> bool"

text \<open>
  The methods of \<^verbatim>\<open>sorter\<close>, which implement \<^verbatim>\<open>sort.Interface\<close> over the
  slice being sorted. Indices are always below the length when the library calls them.
\<close>

definition sorter_Len :: "Task list \<Rightarrow> nat" where
  "sorter_Len ts = length ts"

definition sorter_Swap :: "Task list \<Rightarrow> nat \<Rightarrow> nat \<Rightarrow> Task list" where
  "sorter_Swap ts i j = ts[i := ts ! j, j := ts ! i]"

definition sorter_Less :: "Sort \<Rightarrow> Task list \<Rightarrow> nat \<Rightarrow> nat \<Rightarrow> bool" where
  "sorter_Less by ts i j = by (ts ! i) (ts ! j)"

text \<open>
  \<^verbatim>\<open>Sort.Tasks\<close> calls the standard library's \<^verbatim>\<open>sort.Sort\<close>, which is documented as
  not guaranteed to be stable. For a slice of at most 12 elements \<^verbatim>\<open>sort.Sort\<close>
  (Go 1.19 and later) is exactly the library's insertion sort
  \<^verbatim>\<open>
  for i := a + 1; i < b; i++ {
      for j := i; j > a && data.Less(j, j-1); j-- {
          data.Swap(j, j-1)
      }
  }
  \<close>
  with \<open>a = 0\<close> and \<open>b = data.Len()\<close>; for two elements every release of the
  library does this single comparison and swap. Longer slices are sorted by the
  library's quicksort variant, which is not modelled: the theorems about the order
  produced by sorting are stated for slices of at most 12 elements.
\<close>

fun insertionSort_inner :: "Sort \<Rightarrow> nat \<Rightarrow> Task list \<Rightarrow> Task list" where
  "insertionSort_inner by 0 ts = ts"
| "insertionSort_inner by (Suc j) ts =
     (if sorter_Less by ts (Suc j) j
      then insertionSort_inner by j (sorter_Swap ts (Suc j) j)
      else ts)"

definition insertionSort :: "Sort \<Rightarrow> Task list \<Rightarrow> Task list" where
  "insertionSort by ts =
     foldl (\<lambda>acc i. insertionSort_inner by i acc) ts [1 ..< sorter_Len ts]"

definition sort_Sort :: "Sort \<Rightarrow> Task list \<Rightarrow> Task list" where
  "sort_Sort by ts = insertionSort by ts"

text \<open>
  \<^verbatim>\<open>Sort.Tasks\<close> sorts the elements of the slice in place; the list returned is the
  content of the slice's backing array afterwards.
\<close>

definition Sort_Tasks :: "Sort \<Rightarrow> Task list \<Rightarrow> Task list" where
  "Sort_Tasks s ts = sort_Sort s ts"

text \<open>
  \<^verbatim>\<open>Filter.Tasks\<close>: \<^verbatim>\<open>r\<close> starts as the nil slice and is appended to; the
  argument is only read.
\<close>

fun Filter_loop :: "Filter \<Rightarrow> Task list \<Rightarrow> slice \<Rightarrow> slice" where
  "Filter_loop f [] r = r"
| "Filter_loop f (t # ts) r = Filter_loop f ts (if f t then append1 r t else r)"

definition Filter_Tasks :: "Filter \<Rightarrow> slice \<Rightarrow> slice" where
  "Filter_Tasks f ts = Filter_loop f (elems ts) None"

section \<open>The request handler of internal/task/handler.go\<close>

subsection \<open>Presets\<close>

text \<open>The two lookup tables; a name that is not a key gives \<open>None\<close>.\<close>

definition filters :: "string \<Rightarrow> Filter option" where
  "filters =
     [''isDone'' \<mapsto> (\<lambda>t. Done t),
      ''isNotDone'' \<mapsto> (\<lambda>t. \<not> Done t),
      ''isScheduled'' \<mapsto> (\<lambda>t. Date t \<noteq> 0)]"

definition sorters :: "string \<Rightarrow> Sort option" where
  "sorters =
     [''dateAsc'' \<mapsto> (\<lambda>t1 t2. Date t1 \<le>s Date t2),
      ''dateDesc'' \<mapsto> (\<lambda>t1 t2. Date t2 \<le>s Date t1),
      ''priorityAsc'' \<mapsto> (\<lambda>t1 t2. Priority t1 \<le> Priority t2),
      ''priorityDesc'' \<mapsto> (\<lambda>t1 t2. Priority t2 \<le> Priority t1)]"

subsection \<open>Requests and responses\<close>

text \<open>
  What the handlers read from an \<^verbatim>\<open>*http.Request\<close>: the method, \<^verbatim>\<open>r.URL.Path\<close>,
  the query parameters \<^verbatim>\<open>filter\<close> and \<^verbatim>\<open>sortBy\<close> (\<^verbatim>\<open>Get\<close> gives the empty
  string for an absent one), and the body. The body is only ever passed to
  \<^verbatim>\<open>json.Decoder.Decode\<close>; the request carries the outcome of decoding it into
  \<^verbatim>\<open>struct{Title string}\<close> and into \<^verbatim>\<open>Task\<close>, \<open>None\<close> when decoding fails.
\<close>

record request =
  Method :: string
  URL_Path :: string
  Query_filter :: string
  Query_sortBy :: string
  Body_Title :: "string option"
  Body_Task :: "Task option"

definition Path :: string where
  "Path = ''/task/''"

text \<open>
  The errors a handler returns: an \<^verbatim>\<open>*errRequest\<close> (a cause and a status code) or
  any other error value.
\<close>

datatype cause =
    Malformed
  | Store error
  | InconsistentIDs
  | DoesNotExist int
  | NotImplemented string

datatype handler_error = ErrRequest cause nat | Plain cause

definition badRequestError :: "cause \<Rightarrow> handler_error" where
  "badRequestError err = ErrRequest err 400"

definition notFoundError :: "cause \<Rightarrow> handler_error" where
  "notFoundError err = ErrRequest err 404"

text \<open>
  \<^verbatim>\<open>encoding/json\<close> writes a nil slice as \<^verbatim>\<open>null\<close> and a non-nil slice as an
  array, \<^verbatim>\<open>[]\<close> when it is empty.
\<close>

datatype json_tasks = JNull | JArray "Task list"

definition json_Encode_slice :: "slice \<Rightarrow> json_tasks" where
  "json_Encode_slice t = (case t of None \<Rightarrow> JNull | Some xs \<Rightarrow> JArray xs)"

text \<open>
  What was written to the \<^verbatim>\<open>http.ResponseWriter\<close>. The status is 200 unless
  \<^verbatim>\<open>http.Error\<close> sets another one.
\<close>

datatype body =
    NoBody
  | TaskBody Task
  | TasksBody json_tasks
  | ErrorText cause
  | InternalServerErrorText

record response =
  code :: nat
  written :: body

text \<open>
  \<^verbatim>\<open>strconv.Atoi\<close>: an optional sign followed by at least one decimal digit, with a
  value in the range of a 64-bit \<^verbatim>\<open>int\<close>.
\<close>

definition digit_of :: "char \<Rightarrow> nat option" where
  "digit_of c =
     (let n = (of_char c :: nat) in if 48 \<le> n \<and> n \<le> 57 then Some (n - 48) else None)"

fun digits_value :: "string \<Rightarrow> nat \<Rightarrow> nat option" where
  "digits_value [] n = Some n"
| "digits_value (c # cs) n =
     (case digit_of c of None \<Rightarrow> None | Some d \<Rightarrow> digits_value cs (n * 10 + d))"

definition strconv_Atoi :: "string \<Rightarrow> int option" where
  "strconv_Atoi s =
     (let neg = (s \<noteq> [] \<and> hd s = CHR ''-'');
          ds = (if s \<noteq> [] \<and> (hd s = CHR ''-'' \<or> hd s = CHR ''+'') then tl s else s)
      in if ds = [] then None
         else (case digits_value ds 0 of
                 None \<Rightarrow> None
               | Some n \<Rightarrow>
                   (let v = (if neg then - int n else int n)
                    in if - (2 ^ 63) \<le> v \<and> v < 2 ^ 63 then Some v else None)))"

text \<open>\<^verbatim>\<open>parseID\<close>: \<^verbatim>\<open>strconv.Atoi(r.URL.Path[len(Path):])\<close>.\<close>

definition parseID :: "request \<Rightarrow> int option" where
  "parseID r = strconv_Atoi (drop (length Path) (URL_Path r))"

subsection \<open>Handlers\<close>

text \<open>
  A handler returns what it wrote on success, the error it returned, and the store
  (the package variable \<^verbatim>\<open>tasks\<close>) afterwards.
\<close>

type_synonym handled = "(body \<times> handler_error option) \<times> inMemory"

definition create :: "inMemory \<Rightarrow> request \<Rightarrow> handled" where
  "create m r =
     (case Body_Title r of
        None \<Rightarrow> ((NoBody, Some (badRequestError Malformed)), m)
      | Some title \<Rightarrow>
          (case inMemory_Create m title of
             (Inl err, m') \<Rightarrow> ((NoBody, Some (badRequestError (Store err))), m')
           | (Inr t, m') \<Rightarrow> ((NoBody, None), m')))"

definition read :: "inMemory \<Rightarrow> request \<Rightarrow> handled" where
  "read m r =
     (case parseID r of
        None \<Rightarrow> ((NoBody, Some (badRequestError Malformed)), m)
      | Some id' \<Rightarrow>
          (case inMemory_Find m id' of
             None \<Rightarrow> ((NoBody, Some (notFoundError (DoesNotExist id'))), m)
           | Some t \<Rightarrow> ((TaskBody t, None), m)))"

text \<open>
  \<^verbatim>\<open>readAll\<close>. The local slice \<^verbatim>\<open>t\<close> is first the store's own slice
  (\<^verbatim>\<open>All\<close> returns \<^verbatim>\<open>m.tasks\<close> itself, so both share one backing array), and a
  new slice once a filter has been applied. \<^verbatim>\<open>Sort.Tasks\<close> sorts \<^verbatim>\<open>t\<close> in place:
  while \<^verbatim>\<open>t\<close> is still the store's slice, the store sees the new order. The flag
  \<open>shared\<close> records whether \<^verbatim>\<open>t\<close> is the store's slice.
\<close>

definition readAll :: "inMemory \<Rightarrow> request \<Rightarrow> handled" where
  "readAll m r =
     (let t = inMemory_All m;
          (t, shared) =
            (case filters (Query_filter r) of
               Some byFieldEq \<Rightarrow> (Filter_Tasks byFieldEq t, False)
             | None \<Rightarrow> (t, True));
          (t, m) =
            (case sorters (Query_sortBy r) of
               Some byField \<Rightarrow>
                 (let t' = map_option (Sort_Tasks byField) t
                  in (t', if shared then m\<lparr>tasks := t'\<rparr> else m))
             | None \<Rightarrow> (t, m))
      in ((TasksBody (json_Encode_slice t), None), m))"

definition update :: "inMemory \<Rightarrow> request \<Rightarrow> handled" where
  "update m r =
     (case parseID r of
        None \<Rightarrow> ((NoBody, Some (badRequestError Malformed)), m)
      | Some id' \<Rightarrow>
          (case Body_Task r of
             None \<Rightarrow> ((NoBody, Some (badRequestError Malformed)), m)
           | Some t \<Rightarrow>
               if ID t \<noteq> id' then ((NoBody, Some (badRequestError InconsistentIDs)), m)
               else (case inMemory_Find m id' of
                       None \<Rightarrow> ((NoBody, Some (notFoundError (DoesNotExist id'))), m)
                     | Some _ \<Rightarrow>
                         (case inMemory_Update m t of
                            (None, m') \<Rightarrow> ((NoBody, None), m')
                          | (Some err, m') \<Rightarrow> ((NoBody, Some (Plain (Store err))), m')))))"

definition delete :: "inMemory \<Rightarrow> request \<Rightarrow> handled" where
  "delete m r =
     (case parseID r of
        None \<Rightarrow> ((NoBody, Some (badRequestError Malformed)), m)
      | Some id' \<Rightarrow>
          (case inMemory_Delete m id' of
             (None, m') \<Rightarrow> ((NoBody, None), m')
           | (Some err, m') \<Rightarrow> ((NoBody, Some (Plain (Store err))), m')))"

text \<open>
  \<^verbatim>\<open>errorHandler\<close>: nothing is written for a nil error, so the response keeps what the
  handler wrote and the status 200.
\<close>

definition errorHandler :: "body \<Rightarrow> handler_error option \<Rightarrow> response" where
  "errorHandler w err =
     (case err of
        None \<Rightarrow> \<lparr>code = 200, written = w\<rparr>
      | Some (ErrRequest e c) \<Rightarrow> \<lparr>code = c, written = ErrorText e\<rparr>
      | Some (Plain e) \<Rightarrow> \<lparr>code = 500, written = InternalServerErrorText\<rparr>)"

text \<open>
  \<^verbatim>\<open>RestAPI\<close>: the switch on the method. In the \<^verbatim>\<open>PUT\<close> and \<^verbatim>\<open>DELETE\<close> cases
  without an identifier in the path no handler is called and \<^verbatim>\<open>err\<close> stays nil.
\<close>

definition RestAPI :: "inMemory \<Rightarrow> request \<Rightarrow> response \<times> inMemory" where
  "RestAPI m r =
     (let ((w, err), m') =
        (if Method r = ''GET'' then
           (if length (URL_Path r) > length Path then read m r else readAll m r)
         else if Method r = ''POST'' then create m r
         else if Method r = ''PUT'' then
           (if length (URL_Path r) > length Path then update m r else ((NoBody, None), m))
         else if Method r = ''DELETE'' then
           (if length (URL_Path r) > length Path then delete m r else ((NoBody, None), m))
         else ((NoBody, Some (badRequestError (NotImplemented (Method r)))), m))
      in (errorHandler w err, m'))"

section \<open>Runs of the store\<close>

text \<open>
  The operations a client can apply to the store: the three mutating methods of the
  \<^verbatim>\<open>Manager\<close> interface and a list-all request
  \<^verbatim>\<open>GET /task/?filter=f&sortBy=s\<close> served by \<^verbatim>\<open>RestAPI\<close>.
\<close>

datatype op =
    OpCreate string
  | OpUpdate Task
  | OpDelete int
  | OpReadAll string string

definition list_request :: "string \<Rightarrow> string \<Rightarrow> request" where
  "list_request f s =
     \<lparr>Method = ''GET'', URL_Path = Path, Query_filter = f, Query_sortBy = s,
      Body_Title = None, Body_Task = None\<rparr>"

fun step :: "inMemory \<Rightarrow> op \<Rightarrow> inMemory" where
  "step m (OpCreate title) = snd (inMemory_Create m title)"
| "step m (OpUpdate t) = snd (inMemory_Update m t)"
| "step m (OpDelete id') = snd (inMemory_Delete m id')"
| "step m (OpReadAll f s) = snd (RestAPI m (list_request f s))"

fun exec :: "inMemory \<Rightarrow> op list \<Rightarrow> inMemory" where
  "exec m [] = m"
| "exec m (x # xs) = exec (step m x) xs"

text \<open>The identifiers handed out by the successful creates of a run, in order.\<close>

fun created_ids :: "inMemory \<Rightarrow> op list \<Rightarrow> int list" where
  "created_ids m [] = []"
| "created_ids m (OpCreate title # xs) =
     (case fst (inMemory_Create m title) of
        Inr t \<Rightarrow> ID t # created_ids (step m (OpCreate title)) xs
      | Inl err \<Rightarrow> created_ids (step m (OpCreate title)) xs)"
| "created_ids m (x # xs) = created_ids (step m x) xs"

text \<open>The number of deletes of a run that returned no error.\<close>

fun deletes_ok :: "inMemory \<Rightarrow> op list \<Rightarrow> nat" where
  "deletes_ok m [] = 0"
| "deletes_ok m (OpDelete id' # xs) =
     (if fst (inMemory_Delete m id') = None then 1 else 0)
       + deletes_ok (step m (OpDelete id')) xs"
| "deletes_ok m (x # xs) = deletes_ok (step m x) xs"

text \<open>The number of create operations in a sequence, whatever their outcome.\<close>

fun creates_called :: "op list \<Rightarrow> nat" where
  "creates_called [] = 0"
| "creates_called (OpCreate title # xs) = Suc (creates_called xs)"
| "creates_called (x # xs) = creates_called xs"

text \<open>
  The data model's invariant: stored identifiers are pairwise distinct and were all
  handed out by the counter, and the slice is nil exactly as long as nothing has been
  created.
\<close>

definition store_inv :: "inMemory \<Rightarrow> bool" where
  "store_inv m \<longleftrightarrow>
     distinct (map ID (elems (tasks m)))
     \<and> 0 \<le> nextID m
     \<and> list_all (\<lambda>t. 0 \<le> ID t \<and> ID t < nextID m) (elems (tasks m))
     \<and> ((tasks m = None) = (nextID m = 0))"

text \<open>A task with the given identifier, date and priority, for the examples.\<close>

definition example_task :: "int \<Rightarrow> 64 word \<Rightarrow> 8 word \<Rightarrow> Task" where
  "example_task i d p =
     \<lparr>ID = i, Title = ''t'', Date = d, Note = [], Priority = p, Done = False\<rparr>"

section \<open>Vocabulary of the properties\<close>




text \<open>
  The insertion sort seen as a function on lists: \<open>ins_back\<close> moves an element
  towards the front of a prefix that is given back to front, and \<open>ins_all\<close> does so
  for every element of the rest in turn.
\<close>

fun ins_back :: "Sort \<Rightarrow> Task \<Rightarrow> Task list \<Rightarrow> Task list" where
  "ins_back by x [] = [x]"
| "ins_back by x (y # ys) = (if by x y then y # ins_back by x ys else x # y # ys)"

fun ins_all :: "Sort \<Rightarrow> Task list \<Rightarrow> Task list \<Rightarrow> Task list" where
  "ins_all by q [] = rev q"
| "ins_all by q (x # rest) = ins_all by (ins_back by x q) rest"

text \<open>
  A listing reorders the store when it selects a sort preset and no filter preset.
\<close>

fun reorders :: "op \<Rightarrow> bool" where
  "reorders (OpReadAll f s) = (filters f = None \<and> sorters s \<noteq> None)"
| "reorders x = False"

text \<open>
  Creation order as an invariant of the slice: identifiers ascend along it and lie
  below the counter.
\<close>

definition ordered_inv :: "inMemory \<Rightarrow> bool" where
  "ordered_inv m \<longleftrightarrow>
     sorted_wrt (<) (map ID (elems (tasks m)))
     \<and> 0 \<le> nextID m
     \<and> list_all (\<lambda>t. ID t < nextID m) (elems (tasks m))"

text \<open>A create that succeeds is one with a non-empty title.\<close>

fun is_ok_create :: "op \<Rightarrow> bool" where
  "is_ok_create (OpCreate title) = (title \<noteq> [])"
| "is_ok_create x = False"

text \<open>
  \<open>churn n\<close> creates a task and deletes it again, \<open>n\<close> times over: the store never
  holds more than one task, and the counter advances \<open>n\<close> times.
\<close>

fun churn :: "nat \<Rightarrow> op list" where
  "churn 0 = []"
| "churn (Suc n) = churn n @ [OpCreate ''t'', OpDelete (int_wrap (int n))]"

section \<open>Facts about the store operations\<close>

lemma range_index_None: "range_index ts i = None \<longleftrightarrow> i \<notin> ID ` set ts"
  by (induction ts) auto

lemma range_index_Some:
  "range_index ts i = Some k \<Longrightarrow>
     k < length ts \<and> ID (ts ! k) = i \<and> (\<forall>j<k. ID (ts ! j) \<noteq> i)"
proof (induction ts arbitrary: k)
  case Nil
  then show ?case by simp
next
  case (Cons t ts)
  show ?case
  proof (cases "ID t = i")
    case True
    with Cons.prems show ?thesis by simp
  next
    case False
    with Cons.prems obtain k' where k': "range_index ts i = Some k'" "k = Suc k'"
      by auto
    from Cons.IH [OF k'(1)]
    have "k' < length ts" "ID (ts ! k') = i" "\<forall>j<k'. ID (ts ! j) \<noteq> i"
      by auto
    then show ?thesis using False k'(2) by (auto simp: nth_Cons split: nat.splits)
  qed
qed


lemma Find_loop_update:
  "range_index ts (ID t) = Some k \<Longrightarrow> Find_loop (ts[k := t]) (ID t) = Some t"
  by (induction ts arbitrary: k) (auto split: if_splits)

lemma map_ID_update:
  "range_index ts (ID t) = Some k \<Longrightarrow> map ID (ts[k := t]) = map ID ts"
  by (induction ts arbitrary: k) (auto split: if_splits)

lemma nth_update_other:
  "range_index ts (ID t) = Some k \<Longrightarrow> j < length ts \<Longrightarrow> ID (ts ! j) \<noteq> ID t \<Longrightarrow>
     ts[k := t] ! j = ts ! j"
  using range_index_Some [of ts "ID t" k] by (cases "j = k") auto

lemma delete_filter:
  "distinct (map ID ts) \<Longrightarrow> range_index ts i = Some k \<Longrightarrow>
     take k ts @ drop (Suc k) ts = filter (\<lambda>t. ID t \<noteq> i) ts"
proof (induction ts arbitrary: k)
  case Nil
  then show ?case by simp
next
  case (Cons t ts)
  show ?case
  proof (cases "ID t = i")
    case True
    then have "\<forall>u\<in>set ts. ID u \<noteq> i"
      using Cons.prems(1) by (auto simp: image_iff)
    then have "filter (\<lambda>t. ID t \<noteq> i) ts = ts"
      by (simp add: filter_id_conv)
    with True Cons.prems(2) show ?thesis by simp
  next
    case False
    with Cons.prems obtain k' where k': "range_index ts i = Some k'" "k = Suc k'"
      by auto
    with Cons.IH [of k'] Cons.prems(1) False show ?thesis by simp
  qed
qed

lemma delete_length:
  "range_index ts i = Some k \<Longrightarrow> Suc (length (take k ts @ drop (Suc k) ts)) = length ts"
  using range_index_Some [of ts i k] by auto

lemma int_wrap_id: "- (2 ^ 63) \<le> x \<Longrightarrow> x < 2 ^ 63 \<Longrightarrow> int_wrap x = x"
  by (simp add: int_wrap_def)

lemma int_wrap_range: "- (2 ^ 63) \<le> int_wrap x \<and> int_wrap x < 2 ^ 63"
  by (simp add: int_wrap_def)

lemma wrap_shift: "((a + h) mod n - h + b + h) mod n = (a + b + h) mod n" for a b h n :: int
proof -
  have "((a + h) mod n - h + b + h) mod n = ((a + h) mod n + b) mod n"
    by (simp add: algebra_simps)
  also have "\<dots> = (a + h + b) mod n"
    by (rule mod_add_left_eq)
  finally show ?thesis
    by (simp add: algebra_simps)
qed

lemma int_wrap_add: "int_wrap (int_wrap a + b) = int_wrap (a + b)"
  unfolding int_wrap_def by (simp only: wrap_shift)

lemma nextID_Create:
  "nextID (snd (inMemory_Create m title))
     = (if title = [] then nextID m else int_wrap (nextID m + 1))"
  by (simp add: inMemory_Create_def Let_def)

lemma nextID_Update: "nextID (snd (inMemory_Update m t)) = nextID m"
  by (simp add: inMemory_Update_def split: option.splits)

lemma nextID_Delete: "nextID (snd (inMemory_Delete m i)) = nextID m"
  by (simp add: inMemory_Delete_def split: option.splits)

section \<open>Facts about sorting and filtering\<close>

lemma length_ins_back: "length (ins_back by x q) = Suc (length q)"
  by (induction q) auto

lemma swap_adjacent:
  "sorter_Swap (p @ y # x # post) (Suc (length p)) (length p) = p @ x # y # post"
  by (simp add: sorter_Swap_def nth_append list_update_append)

text \<open>
  One run of the inner loop, started at the element behind a prefix \<open>rev q\<close>, is
  \<open>ins_back\<close> on that prefix.
\<close>

lemma inner_ins_back:
  "insertionSort_inner by (length q) (rev q @ x # post) = rev (ins_back by x q) @ post"
proof (induction q arbitrary: post)
  case Nil
  then show ?case by simp
next
  case (Cons y q)
  have less: "sorter_Less by (rev q @ y # x # post) (Suc (length q)) (length q) = by x y"
    by (simp add: sorter_Less_def nth_append)
  have swap: "sorter_Swap (rev q @ y # x # post) (Suc (length q)) (length q)
                = rev q @ x # y # post"
    using swap_adjacent [of "rev q" y x post] by simp
  show ?case
    using Cons.IH [of "y # post"] less swap by simp
qed

lemma foldl_ins_all:
  "foldl (\<lambda>acc i. insertionSort_inner by i acc) (rev q @ rest)
       [length q ..< length q + length rest]
     = ins_all by q rest"
proof (induction rest arbitrary: q)
  case Nil
  then show ?case by simp
next
  case (Cons x rest)
  have "[length q ..< length q + length (x # rest)]
          = length q # [Suc (length q) ..< Suc (length q) + length rest]"
    using upt_conv_Cons [of "length q" "length q + length (x # rest)"] by simp
  then show ?case
    using Cons.IH [of "ins_back by x q"] by (simp add: inner_ins_back length_ins_back)
qed

lemma insertionSort_Cons: "insertionSort by (x # xs) = ins_all by [x] xs"
  using foldl_ins_all [of "by" "[x]" xs] by (simp add: insertionSort_def sorter_Len_def)

lemma insertionSort_Nil: "insertionSort by [] = []"
  by (simp add: insertionSort_def sorter_Len_def)

lemma mset_ins_back: "mset (ins_back by x q) = add_mset x (mset q)"
  by (induction q) auto


lemma mset_ins_all: "mset (ins_all by q rest) = mset q + mset rest"
  by (induction rest arbitrary: q) (auto simp: mset_ins_back)

lemma mset_insertionSort: "mset (insertionSort by ts) = mset ts"
  by (cases ts) (simp_all add: insertionSort_Nil insertionSort_Cons mset_ins_all)





lemma mset_Sort_Tasks: "mset (Sort_Tasks by ts) = mset ts"
  by (simp add: Sort_Tasks_def sort_Sort_def mset_insertionSort)

lemma Sort_Tasks_Nil: "Sort_Tasks by [] = []"
  by (simp add: Sort_Tasks_def sort_Sort_def insertionSort_Nil)

lemma Filter_loop_eq:
  "Filter_loop f ts r = (if filter f ts = [] then r else Some (elems r @ filter f ts))"
  by (induction ts arbitrary: r) (auto simp: append1_def)

lemma Filter_Tasks_eq:
  "Filter_Tasks f ts =
     (if filter f (elems ts) = [] then None else Some (filter f (elems ts)))"
  by (simp add: Filter_Tasks_def Filter_loop_eq)

section \<open>Facts about listings and runs\<close>

lemma readAll_store:
  "snd (readAll m r) =
     (case (filters (Query_filter r), sorters (Query_sortBy r)) of
        (None, Some by) \<Rightarrow> m\<lparr>tasks := map_option (Sort_Tasks by) (tasks m)\<rparr>
      | _ \<Rightarrow> m)"
  by (simp add: readAll_def inMemory_All_def Let_def split: option.splits)

lemma list_request_query:
  "Query_filter (list_request f s) = f" "Query_sortBy (list_request f s) = s"
  by (simp_all add: list_request_def)

lemma RestAPI_list_request:
  "RestAPI m (list_request f s) =
     (\<lparr>code = 200, written = fst (fst (readAll m (list_request f s)))\<rparr>,
      snd (readAll m (list_request f s)))"
  by (simp add: RestAPI_def list_request_def Path_def errorHandler_def readAll_def Let_def
      split: option.splits prod.splits)

lemma step_ReadAll:
  "step m (OpReadAll f s) =
     (case (filters f, sorters s) of
        (None, Some by) \<Rightarrow> m\<lparr>tasks := map_option (Sort_Tasks by) (tasks m)\<rparr>
      | _ \<Rightarrow> m)"
  unfolding step.simps RestAPI_list_request readAll_store by (simp add: list_request_query)

declare step.simps(4) [simp del]

lemma elems_map_option: "g [] = [] \<Longrightarrow> elems (map_option g t) = g (elems t)"
  by (cases t) auto

lemma step_ReadAll_props:
  "nextID (step m (OpReadAll f s)) = nextID m"
  "mset (elems (tasks (step m (OpReadAll f s)))) = mset (elems (tasks m))"
  "(tasks (step m (OpReadAll f s)) = None) = (tasks m = None)"
  unfolding step_ReadAll
  by (auto simp: elems_map_option Sort_Tasks_Nil mset_Sort_Tasks split: option.splits)

lemma Count_step_ReadAll: "inMemory_Count (step m (OpReadAll f s)) = inMemory_Count m"
  using step_ReadAll_props(2) [of m f s] by (metis inMemory_Count_def size_mset)

lemmas nextID_simps = nextID_Create nextID_Update nextID_Delete step_ReadAll_props(1)

lemma int_wrap_idem: "int_wrap (int_wrap a) = int_wrap a"
  using int_wrap_add [of a 0] by simp

lemma exec_append: "exec m (xs @ ys) = exec (exec m xs) ys"
  by (induction xs arbitrary: m) auto

lemma created_ids_append:
  "created_ids m (xs @ ys) = created_ids m xs @ created_ids (exec m xs) ys"
proof (induction xs arbitrary: m)
  case Nil
  then show ?case by simp
next
  case (Cons x xs)
  then show ?case by (cases x) (auto split: sum.splits)
qed

lemma length_created_ids: "length (created_ids m xs) = length (filter is_ok_create xs)"
proof (induction xs arbitrary: m)
  case Nil
  then show ?case by simp
next
  case (Cons x xs)
  then show ?case by (cases x) (auto simp: inMemory_Create_def Let_def)
qed

lemma ok_creates_churn: "length (filter is_ok_create (churn n)) = n"
  by (induction n) auto

lemma created_ids_wrap:
  "int_wrap (nextID m) = nextID m \<Longrightarrow>
     created_ids m xs
       = map (\<lambda>k. int_wrap (nextID m + int k)) [0 ..< length (created_ids m xs)]"
proof (induction xs arbitrary: m)
  case Nil
  then show ?case by simp
next
  case (Cons x xs)
  show ?case
  proof (cases "is_ok_create x")
    case True
    then obtain title where x: "x = OpCreate title" "title \<noteq> []"
      by (cases x) auto
    let ?n = "length (created_ids (step m x) xs)"
    have nx: "nextID (step m x) = int_wrap (nextID m + 1)"
      using x by (simp add: nextID_simps)
    have "created_ids m (x # xs) = nextID m # created_ids (step m x) xs"
      using x by (simp add: inMemory_Create_def Let_def)
    also have "created_ids (step m x) xs
                 = map (\<lambda>k. int_wrap (nextID m + 1 + int k)) [0 ..< ?n]"
      using Cons.IH [of "step m x"] nx by (simp add: int_wrap_idem int_wrap_add)
    also have "nextID m # map (\<lambda>k. int_wrap (nextID m + 1 + int k)) [0 ..< ?n]
                 = map (\<lambda>k. int_wrap (nextID m + int k)) [0 ..< Suc ?n]"
      using Cons.prems
      by (simp add: upt_conv_Cons map_Suc_upt [symmetric] add.assoc del: upt_Suc)
    finally show ?thesis
      using x by (simp add: inMemory_Create_def Let_def del: upt_Suc)
  next
    case False
    then have same: "created_ids m (x # xs) = created_ids (step m x) xs"
      by (cases x) (auto simp: inMemory_Create_def)
    have "nextID (step m x) = nextID m"
      using False by (cases x) (auto simp: nextID_simps)
    then show ?thesis
      using Cons.IH [of "step m x"] Cons.prems same by simp
  qed
qed

lemma created_ids_NewManager:
  "created_ids NewManager xs
     = map (\<lambda>k. int_wrap (int k)) [0 ..< length (created_ids NewManager xs)]"
  using created_ids_wrap [of NewManager xs] by (simp add: NewManager_def int_wrap_def)

lemma exec_churn:
  "exec NewManager (churn n)
     = \<lparr>tasks = (if n = 0 then None else Some []), nextID = int_wrap (int n)\<rparr>"
proof (induction n)
  case 0
  then show ?case by (simp add: NewManager_def int_wrap_def)
next
  case (Suc n)
  have "int_wrap (int_wrap (int n) + 1) = int_wrap (int (Suc n))"
    using int_wrap_add [of "int n" 1] by (simp add: add.commute)
  then show ?case
    using Suc
    by (simp add: exec_append inMemory_Create_def inMemory_Delete_def append1_def Let_def)
qed

lemma count_exec:
  "inMemory_Count (exec m xs) + deletes_ok m xs
     = inMemory_Count m + length (created_ids m xs)"
proof (induction xs arbitrary: m)
  case Nil
  then show ?case by simp
next
  case (Cons x xs)
  show ?case
  proof (cases x)
    case (OpCreate title)
    then show ?thesis
      using Cons.IH [of "step m x"]
      by (auto simp: inMemory_Create_def inMemory_Count_def append1_def Let_def)
  next
    case (OpUpdate t)
    have "inMemory_Count (step m x) = inMemory_Count m"
      using OpUpdate by (auto simp: inMemory_Update_def inMemory_Count_def split: option.splits)
    then show ?thesis
      using OpUpdate Cons.IH [of "step m x"] by simp
  next
    case (OpDelete i)
    show ?thesis
    proof (cases "range_index (elems (tasks m)) i")
      case None
      then show ?thesis
        using OpDelete Cons.IH [of "step m x"] by (simp add: inMemory_Delete_def)
    next
      case (Some k)
      have "Suc (inMemory_Count (step m x)) = inMemory_Count m"
        using OpDelete Some delete_length [OF Some]
        by (simp add: inMemory_Delete_def inMemory_Count_def)
      then show ?thesis
        using OpDelete Some Cons.IH [of "step m x"] by (simp add: inMemory_Delete_def)
    qed
  next
    case (OpReadAll f s)
    then show ?thesis
      using Cons.IH [of "step m x"] Count_step_ReadAll [of m f s] by simp
  qed
qed

lemma store_inv_NewManager: "store_inv NewManager"
  by (simp add: store_inv_def NewManager_def)

lemma store_inv_Create:
  "store_inv m \<Longrightarrow> nextID m < 2 ^ 63 - 1 \<Longrightarrow> store_inv (snd (inMemory_Create m title))"
  by (auto simp: store_inv_def inMemory_Create_def Let_def append1_def list_all_iff int_wrap_id)

lemma store_inv_Update:
  assumes "store_inv m"
  shows "store_inv (snd (inMemory_Update m t))"
proof (cases "range_index (elems (tasks m)) (ID t)")
  case None
  then show ?thesis
    using assms by (simp add: inMemory_Update_def)
next
  case (Some k)
  let ?ts = "elems (tasks m)"
  from range_index_Some [OF Some] have k: "k < length ?ts" "ID (?ts ! k) = ID t"
    by auto
  then have nonnil: "tasks m \<noteq> None"
    by (cases "tasks m") auto
  have "0 \<le> ID (?ts ! k) \<and> ID (?ts ! k) < nextID m"
    using assms nth_mem [OF k(1)] by (simp add: store_inv_def list_all_iff)
  then have bound: "0 \<le> ID t \<and> ID t < nextID m"
    using k(2) by simp
  have sub: "set (?ts[k := t]) \<subseteq> insert t (set ?ts)"
    by (rule set_update_subset_insert)
  show ?thesis
    using assms Some map_ID_update [OF Some] nonnil bound sub
    by (auto simp: store_inv_def inMemory_Update_def list_all_iff)
qed

lemma store_inv_Delete:
  assumes "store_inv m"
  shows "store_inv (snd (inMemory_Delete m i))"
proof (cases "range_index (elems (tasks m)) i")
  case None
  then show ?thesis
    using assms by (simp add: inMemory_Delete_def)
next
  case (Some k)
  let ?ts = "elems (tasks m)"
  have dist: "distinct (map ID ?ts)"
    using assms by (simp add: store_inv_def)
  from range_index_Some [OF Some] have "k < length ?ts"
    by simp
  then have "tasks m \<noteq> None"
    by (cases "tasks m") auto
  then show ?thesis
    using assms Some delete_filter [OF dist Some]
    by (auto simp: store_inv_def inMemory_Delete_def list_all_iff distinct_map_filter)
qed

lemma store_inv_ReadAll:
  assumes "store_inv m"
  shows "store_inv (step m (OpReadAll f s))"
proof -
  let ?m' = "step m (OpReadAll f s)"
  have ms: "mset (elems (tasks ?m')) = mset (elems (tasks m))"
    by (rule step_ReadAll_props)
  then have "mset (map ID (elems (tasks ?m'))) = mset (map ID (elems (tasks m)))"
    by simp
  then have "distinct (map ID (elems (tasks ?m'))) = distinct (map ID (elems (tasks m)))"
    by (rule mset_eq_imp_distinct_iff)
  moreover have "set (elems (tasks ?m')) = set (elems (tasks m))"
    using ms by (rule mset_eq_setD)
  ultimately show ?thesis
    using assms step_ReadAll_props(1,3) [of m f s] by (simp add: store_inv_def list_all_iff)
qed

lemma store_inv_step:
  "store_inv m \<Longrightarrow> nextID m < 2 ^ 63 - 1 \<Longrightarrow> store_inv (step m x)"
  by (cases x)
     (simp_all add: store_inv_Create store_inv_Update store_inv_Delete store_inv_ReadAll)

lemma nextID_step_le:
  "0 \<le> nextID m \<Longrightarrow> nextID m < 2 ^ 63 - 1 \<Longrightarrow> nextID (step m x) \<le> nextID m + 1"
  by (cases x) (auto simp: nextID_simps int_wrap_id)

lemma store_inv_exec:
  "store_inv m \<Longrightarrow> nextID m + int (length xs) < 2 ^ 63 \<Longrightarrow> store_inv (exec m xs)"
proof (induction xs arbitrary: m)
  case Nil
  then show ?case by simp
next
  case (Cons x xs)
  have nn: "0 \<le> nextID m" using Cons.prems(1) by (simp add: store_inv_def)
  have lt: "nextID m < 2 ^ 63 - 1" using Cons.prems(2) by simp
  have "store_inv (step m x)"
    using Cons.prems(1) lt by (rule store_inv_step)
  moreover have "nextID (step m x) + int (length xs) < 2 ^ 63"
    using nextID_step_le [OF nn lt, of x] Cons.prems(2) by simp
  ultimately show ?case using Cons.IH [of "step m x"] by simp
qed

lemma store_inv_reachable: "length xs < 2 ^ 63 \<Longrightarrow> store_inv (exec NewManager xs)"
proof -
  assume "length xs < 2 ^ 63"
  then have "int (length xs) < 2 ^ 63"
    by (metis of_nat_less_iff of_nat_numeral of_nat_power)
  then show ?thesis
    using store_inv_exec [OF store_inv_NewManager, of xs] by (simp add: NewManager_def)
qed

lemma ordered_inv_step:
  assumes "ordered_inv m" "\<not> reorders x" "nextID m < 2 ^ 63 - 1"
  shows "ordered_inv (step m x)"
proof (cases x)
  case (OpCreate title)
  then show ?thesis
    using assms(1,3)
    by (auto simp: ordered_inv_def inMemory_Create_def Let_def append1_def list_all_iff
        sorted_wrt_append int_wrap_id)
next
  case (OpUpdate t)
  show ?thesis
  proof (cases "range_index (elems (tasks m)) (ID t)")
    case None
    then show ?thesis using assms(1) OpUpdate by (simp add: inMemory_Update_def)
  next
    case (Some k)
    let ?ts = "elems (tasks m)"
    from range_index_Some [OF Some] have k: "k < length ?ts" "ID (?ts ! k) = ID t"
      by auto
    have "ID (?ts ! k) < nextID m"
      using assms(1) nth_mem [OF k(1)] by (simp add: ordered_inv_def list_all_iff)
    then have bound: "ID t < nextID m"
      using k(2) by simp
    have sub: "set (?ts[k := t]) \<subseteq> insert t (set ?ts)"
      by (rule set_update_subset_insert)
    show ?thesis
      using assms(1) OpUpdate Some map_ID_update [OF Some] bound sub
      by (auto simp: ordered_inv_def inMemory_Update_def list_all_iff)
  qed
next
  case (OpDelete i)
  show ?thesis
  proof (cases "range_index (elems (tasks m)) i")
    case None
    then show ?thesis using assms(1) OpDelete by (simp add: inMemory_Delete_def)
  next
    case (Some k)
    let ?ts = "elems (tasks m)"
    have srt: "sorted_wrt (<) (map ID ?ts)"
      using assms(1) by (simp add: ordered_inv_def)
    then have dist: "distinct (map ID ?ts)"
      using strict_sorted_iff by blast
    have "map ID (filter (\<lambda>t. ID t \<noteq> i) ?ts) = filter (\<lambda>j. j \<noteq> i) (map ID ?ts)"
      by (simp add: filter_map comp_def)
    then have "sorted_wrt (<) (map ID (filter (\<lambda>t. ID t \<noteq> i) ?ts))"
      using srt by (simp add: sorted_wrt_filter)
    then show ?thesis
      using assms(1) OpDelete Some delete_filter [OF dist Some]
      by (auto simp: ordered_inv_def inMemory_Delete_def list_all_iff)
  qed
next
  case (OpReadAll f s)
  then show ?thesis
    using assms(1,2) by (auto simp: step_ReadAll split: option.splits)
qed

lemma ordered_inv_exec:
  "ordered_inv m \<Longrightarrow> list_all (\<lambda>x. \<not> reorders x) xs \<Longrightarrow>
     nextID m + int (length xs) < 2 ^ 63 \<Longrightarrow> ordered_inv (exec m xs)"
proof (induction xs arbitrary: m)
  case Nil
  then show ?case by simp
next
  case (Cons x xs)
  have nn: "0 \<le> nextID m" using Cons.prems(1) by (simp add: ordered_inv_def)
  have lt: "nextID m < 2 ^ 63 - 1" using Cons.prems(3) by simp
  have "ordered_inv (step m x)"
    using Cons.prems(1,2) lt by (simp add: ordered_inv_step)
  moreover have "nextID (step m x) + int (length xs) < 2 ^ 63"
    using nextID_step_le [OF nn lt, of x] Cons.prems(3) by simp
  ultimately show ?case using Cons.IH [of "step m x"] Cons.prems(2) by simp
qed

lemma creation_order_kept:
  assumes "list_all (\<lambda>x. \<not> reorders x) xs" "length xs < 2 ^ 63"
  shows "sorted_wrt (<) (map ID (elems (tasks (exec NewManager xs))))"
proof -
  have "int (length xs) < 2 ^ 63"
    using assms(2) by (metis of_nat_less_iff of_nat_numeral of_nat_power)
  then have "ordered_inv (exec NewManager xs)"
    using ordered_inv_exec [of NewManager xs] assms(1)
    by (simp add: ordered_inv_def NewManager_def)
  then show ?thesis by (simp add: ordered_inv_def)
qed

section \<open>The claims\<close>

subsection \<open>C1: sorting and the order of equal keys\<close>




subsection \<open>C2: insertion order of the store\<close>

text \<open>
  Claim C2 says that the store keeps its tasks in creation order whatever requests are
  served. The code breaks this: two tasks are created, task 0 is given the date 2 and
  task 1 the date 1, and the tasks are listed with \<^verbatim>\<open>sortBy=dateAsc\<close> and no filter.
  The sort runs on the store's own slice, so the store now holds task 1 before task 0,
  and the next listing without any sort returns them in that order. (With a filter
  preset the sort runs on the slice that \<^verbatim>\<open>Filter.Tasks\<close> built, and the store is not
  touched: lemmas \<open>readAll_store\<close> and \<open>creation_order_kept\<close>.)
\<close>

theorem C2_sorted_listing_reorders_store:
  "exec NewManager
     [OpCreate ''t'', OpCreate ''t'',
      OpUpdate (example_task 0 2 0), OpUpdate (example_task 1 1 0),
      OpReadAll [] ''dateAsc'']
    = \<lparr>tasks = Some [example_task 1 1 0, example_task 0 2 0], nextID = 2\<rparr>
   \<and> fst (RestAPI \<lparr>tasks = Some [example_task 1 1 0, example_task 0 2 0], nextID = 2\<rparr>
            (list_request [] []))
      = \<lparr>code = 200, written = TasksBody (JArray [example_task 1 1 0, example_task 0 2 0])\<rparr>"
  by (simp add: NewManager_def inMemory_Create_def inMemory_Update_def append1_def
      step_ReadAll filters_def sorters_def Sort_Tasks_def sort_Sort_def insertionSort_def
      sorter_Len_def sorter_Less_def sorter_Swap_def example_task_def Let_def word_sle_eq
      RestAPI_list_request readAll_def inMemory_All_def list_request_query
      json_Encode_slice_def int_wrap_def)

subsection \<open>C3: identifiers handed out by create\<close>

text \<open>
  Claim C3 says that, for every sequence of store operations, each successful create
  gets an identifier greater than all earlier ones. The counter is a Go \<^verbatim>\<open>int\<close>:
  after \<open>2^63\<close> rounds of creating a task and deleting it again the counter has
  wrapped around to \<open>-2^63\<close>, and the next create gets that identifier, which is
  below the very first one, 0.
\<close>

theorem C3_counter_wraps:
  "\<not> sorted_wrt (<) (created_ids NewManager (churn (2 ^ 63) @ [OpCreate ''t'']))"
proof
  let ?ids = "created_ids NewManager (churn (2 ^ 63) @ [OpCreate ''t''])"
  assume srt: "sorted_wrt (<) ?ids"
  have len: "length ?ids = 2 ^ 63 + 1"
    by (simp add: length_created_ids ok_creates_churn)
  have ids: "?ids = map (\<lambda>k. int_wrap (int k)) [0 ..< 2 ^ 63 + 1]"
    using created_ids_NewManager [of "churn (2 ^ 63) @ [OpCreate ''t'']"] len by simp
  have "?ids ! 0 < ?ids ! (2 ^ 63)"
    using srt len by (simp add: sorted_wrt_iff_nth_less)
  moreover have "?ids ! 0 = 0"
    unfolding ids by (simp add: int_wrap_def del: upt_Suc)
  moreover have "?ids ! (2 ^ 63) = - (2 ^ 63)"
    unfolding ids by (simp add: int_wrap_def del: upt_Suc)
  ultimately show False
    by simp
qed

text \<open>
  Claim C3, amended: for every sequence of store operations (creates, updates, deletes
  and listings) applied to a new store in which at most \<open>2^63\<close> creates succeed, the
  identifiers handed out are 0, 1, 2, ... in this order: each is greater than all
  earlier ones and none is handed out twice, whatever has been deleted in between.
\<close>

theorem C3_ids_strictly_increase:
  assumes "length (created_ids NewManager xs) \<le> 2 ^ 63"
  shows "created_ids NewManager xs = map int [0 ..< length (created_ids NewManager xs)]
   \<and> sorted_wrt (<) (created_ids NewManager xs)
   \<and> distinct (created_ids NewManager xs)"
proof -
  let ?n = "length (created_ids NewManager xs)"
  have "map (\<lambda>k. int_wrap (int k)) [0 ..< ?n] = map int [0 ..< ?n]"
  proof (rule map_cong [OF refl])
    fix k assume "k \<in> set [0 ..< ?n]"
    then have "k < 2 ^ 63"
      using assms by simp
    then have "int k < 2 ^ 63"
      by (metis of_nat_less_iff of_nat_numeral of_nat_power)
    then show "int_wrap (int k) = int k"
      by (simp add: int_wrap_id)
  qed
  then have eq: "created_ids NewManager xs = map int [0 ..< ?n]"
    using created_ids_NewManager [of xs] by simp
  have "sorted_wrt (<) (map int [0 ..< n])" for n
    by (simp add: sorted_wrt_map sorted_wrt_iff_nth_less)
  moreover have "distinct (map int [0 ..< n])" for n
    by (simp add: distinct_map inj_on_def)
  ultimately show ?thesis
    using eq by metis
qed

text \<open>
  Claim C3, an instance: three successful creates with a delete and a rejected create
  in between get the identifiers 0, 1 and 2.
\<close>

theorem C3_ids_strictly_increase_witness:
  "created_ids NewManager
      [OpCreate ''a'', OpDelete 0, OpCreate ''b'', OpCreate [], OpCreate ''c''] = [0, 1, 2]
   \<and> length (created_ids NewManager
        [OpCreate ''a'', OpDelete 0, OpCreate ''b'', OpCreate [], OpCreate ''c'']) \<le> 2 ^ 63
   \<and> sorted_wrt (<) (created_ids NewManager
        [OpCreate ''a'', OpDelete 0, OpCreate ''b'', OpCreate [], OpCreate ''c''])
   \<and> distinct (created_ids NewManager
        [OpCreate ''a'', OpDelete 0, OpCreate ''b'', OpCreate [], OpCreate ''c''])"
proof -
  let ?xs = "[OpCreate ''a'', OpDelete 0, OpCreate ''b'', OpCreate [], OpCreate ''c'']"
  have ids: "created_ids NewManager ?xs = [0, 1, 2]"
    by (simp add: NewManager_def inMemory_Create_def inMemory_Delete_def append1_def
        Let_def int_wrap_def)
  have len: "length (created_ids NewManager ?xs) \<le> 2 ^ 63"
    unfolding ids by simp
  from ids len C3_ids_strictly_increase [OF len] show ?thesis
    by blast
qed

subsection \<open>C4: the count of stored tasks\<close>

text \<open>
  Claim C4 says that the count is the number of creates minus the number of successful
  deletes. A create with an empty title is a create operation of the sequence, but it
  stores nothing: after it alone the count is 0, not 1.
\<close>

theorem C4_failed_create_not_counted:
  "int (inMemory_Count (exec NewManager [OpCreate []]))
     \<noteq> int (creates_called [OpCreate []]) - int (deletes_ok NewManager [OpCreate []])"
  by (simp add: inMemory_Count_def NewManager_def inMemory_Create_def)

text \<open>
  Claim C4, amended: for every sequence of operations applied to a new store, the
  count is the number of successful creates (those with a non-empty title) minus the
  number of successful deletes.
\<close>

theorem C4_count_is_creates_minus_deletes:
  "int (inMemory_Count (exec NewManager xs))
     = int (length (created_ids NewManager xs)) - int (deletes_ok NewManager xs)"
  using count_exec [of NewManager xs] by (simp add: inMemory_Count_def NewManager_def)

subsection \<open>C5: update\<close>

text \<open>
  Claim C5: for every store and task \<open>t\<close>, if no stored task has the identifier of
  \<open>t\<close> then \<^verbatim>\<open>Update\<close> returns \<^verbatim>\<open>ErrUpdateUnknown\<close> and the store is unchanged;
  otherwise it returns no error, and \<^verbatim>\<open>Find\<close> on that identifier then returns
  \<open>t\<close> itself, equal in every field.
\<close>

theorem C5_update_unknown_or_replaces:
  "(ID t \<notin> ID ` set (elems (tasks m)) \<longrightarrow> inMemory_Update m t = (Some ErrUpdateUnknown, m))
   \<and> (ID t \<in> ID ` set (elems (tasks m)) \<longrightarrow>
        (\<exists>m'. inMemory_Update m t = (None, m') \<and> inMemory_Find m' (ID t) = Some t))"
proof (cases "range_index (elems (tasks m)) (ID t)")
  case None
  then show ?thesis
    using range_index_None [of "elems (tasks m)" "ID t"] by (simp add: inMemory_Update_def)
next
  case (Some k)
  then have "ID t \<in> ID ` set (elems (tasks m))"
    using range_index_None [of "elems (tasks m)" "ID t"] by auto
  then show ?thesis
    using Some Find_loop_update [OF Some] by (simp add: inMemory_Update_def inMemory_Find_def)
qed

text \<open>
  Claim C5, two instances on a store holding one task: an update of the unknown
  identifier 5 and an update of the stored identifier 0.
\<close>

theorem C5_update_unknown_or_replaces_witness:
  "ID (example_task 5 1 1) \<notin> ID ` set (elems (tasks (exec NewManager [OpCreate ''a''])))
   \<and> inMemory_Update (exec NewManager [OpCreate ''a'']) (example_task 5 1 1)
       = (Some ErrUpdateUnknown, exec NewManager [OpCreate ''a''])
   \<and> ID (example_task 0 1 1) \<in> ID ` set (elems (tasks (exec NewManager [OpCreate ''a''])))
   \<and> (\<exists>m'. inMemory_Update (exec NewManager [OpCreate ''a'']) (example_task 0 1 1) = (None, m')
          \<and> inMemory_Find m' (ID (example_task 0 1 1)) = Some (example_task 0 1 1))"
proof -
  let ?m = "exec NewManager [OpCreate ''a'']"
  have a: "ID (example_task 5 1 1) \<notin> ID ` set (elems (tasks ?m))"
    by (simp add: NewManager_def inMemory_Create_def append1_def example_task_def Let_def)
  have b: "ID (example_task 0 1 1) \<in> ID ` set (elems (tasks ?m))"
    by (simp add: NewManager_def inMemory_Create_def append1_def example_task_def Let_def)
  from a b C5_update_unknown_or_replaces [of "example_task 5 1 1" ?m]
    C5_update_unknown_or_replaces [of "example_task 0 1 1" ?m]
  show ?thesis
    by blast
qed

subsection \<open>C6: delete\<close>



subsection \<open>C7: create with an empty title\<close>

text \<open>
  Claim C7: for every store, \<^verbatim>\<open>Create\<close> with the empty string returns
  \<^verbatim>\<open>ErrCreateEmptyTitle\<close> and the store (slice and counter) is unchanged; with any
  other title, a title of blanks included, it succeeds, appending a task with the
  counter's value as identifier and advancing the counter.
\<close>

theorem C7_empty_title_rejected:
  "inMemory_Create m [] = (Inl ErrCreateEmptyTitle, m)
   \<and> (title \<noteq> [] \<longrightarrow>
        (\<exists>t. inMemory_Create m title
               = (Inr t, m\<lparr>tasks := Some (elems (tasks m) @ [t]),
                            nextID := int_wrap (nextID m + 1)\<rparr>)
            \<and> ID t = nextID m \<and> Title t = title))"
  by (simp add: inMemory_Create_def Let_def append1_def)

text \<open>Claim C7, an instance: the title of one blank on a new store.\<close>

theorem C7_empty_title_rejected_witness:
  "'' '' \<noteq> []
   \<and> (\<exists>t. inMemory_Create NewManager '' ''
            = (Inr t, NewManager\<lparr>tasks := Some (elems (tasks NewManager) @ [t]),
                                  nextID := int_wrap (nextID NewManager + 1)\<rparr>)
         \<and> ID t = nextID NewManager \<and> Title t = '' '')"
  using C7_empty_title_rejected [of NewManager "'' ''"] by simp

subsection \<open>C8: PUT without an identifier\<close>

text \<open>
  Claim C8: for every store, a \<^verbatim>\<open>PUT\<close> request whose path is exactly \<^verbatim>\<open>/task/\<close>
  is answered with status 200 and nothing written, whatever its body, and the store
  is unchanged: the switch calls no handler.
\<close>

theorem C8_put_without_id_is_noop:
  assumes "Method r = ''PUT''" "URL_Path r = ''/task/''"
  shows "RestAPI m r = (\<lparr>code = 200, written = NoBody\<rparr>, m)"
  using assms by (simp add: RestAPI_def Path_def errorHandler_def)

text \<open>Claim C8, an instance: such a request with a well-formed body, on a store of one task.\<close>

theorem C8_put_without_id_is_noop_witness:
  "Method \<lparr>Method = ''PUT'', URL_Path = ''/task/'', Query_filter = [], Query_sortBy = [],
           Body_Title = None, Body_Task = Some (example_task 0 0 0)\<rparr> = ''PUT''
   \<and> URL_Path \<lparr>Method = ''PUT'', URL_Path = ''/task/'', Query_filter = [], Query_sortBy = [],
           Body_Title = None, Body_Task = Some (example_task 0 0 0)\<rparr> = ''/task/''
   \<and> RestAPI (exec NewManager [OpCreate ''a''])
        \<lparr>Method = ''PUT'', URL_Path = ''/task/'', Query_filter = [], Query_sortBy = [],
           Body_Title = None, Body_Task = Some (example_task 0 0 0)\<rparr>
      = (\<lparr>code = 200, written = NoBody\<rparr>, exec NewManager [OpCreate ''a''])"
proof -
  let ?r = "\<lparr>Method = ''PUT'', URL_Path = ''/task/'', Query_filter = [], Query_sortBy = [],
           Body_Title = None, Body_Task = Some (example_task 0 0 0)\<rparr>"
  have a: "Method ?r = ''PUT''"
    by simp
  have b: "URL_Path ?r = ''/task/''"
    by simp
  from a b C8_put_without_id_is_noop [OF a b, of "exec NewManager [OpCreate ''a'']"]
  show ?thesis
    by blast
qed

subsection \<open>C9: what update leaves alone\<close>

text \<open>
  Claim C9: after a successful \<^verbatim>\<open>Update\<close> with \<open>t\<close> the slice holds the same
  identifiers at the same positions as before, every task with another identifier
  than that of \<open>t\<close> is unchanged, and so is the counter.
\<close>

theorem C9_update_keeps_positions:
  assumes "inMemory_Update m t = (None, m')"
  shows "map ID (elems (tasks m')) = map ID (elems (tasks m))
    \<and> (\<forall>j<length (elems (tasks m)). ID (elems (tasks m) ! j) \<noteq> ID t \<longrightarrow>
          elems (tasks m') ! j = elems (tasks m) ! j)
    \<and> nextID m' = nextID m"
proof (cases "range_index (elems (tasks m)) (ID t)")
  case None
  with assms show ?thesis
    by (simp add: inMemory_Update_def)
next
  case (Some k)
  with assms have m': "m' = m\<lparr>tasks := Some ((elems (tasks m))[k := t])\<rparr>"
    by (simp add: inMemory_Update_def)
  show ?thesis
    using map_ID_update [OF Some] nth_update_other [OF Some] by (simp add: m')
qed

text \<open>
  Claim C9, an instance: updating task 1 of a store of two tasks leaves task 0, at
  position 0, as it was.
\<close>

theorem C9_update_keeps_positions_witness:
  "inMemory_Update \<lparr>tasks = Some [example_task 0 0 0, example_task 1 0 0], nextID = 2\<rparr>
       (example_task 1 5 3)
     = (None, \<lparr>tasks = Some [example_task 0 0 0, example_task 1 5 3], nextID = 2\<rparr>)
   \<and> map ID [example_task 0 0 0, example_task 1 5 3]
       = map ID [example_task 0 0 0, example_task 1 0 0]
   \<and> (0::nat) < length [example_task 0 0 0, example_task 1 0 0]
   \<and> ID ([example_task 0 0 0, example_task 1 0 0] ! 0) \<noteq> ID (example_task 1 5 3)
   \<and> [example_task 0 0 0, example_task 1 5 3] ! 0 = [example_task 0 0 0, example_task 1 0 0] ! 0"
proof -
  let ?m = "\<lparr>tasks = Some [example_task 0 0 0, example_task 1 0 0], nextID = 2\<rparr>"
  let ?m' = "\<lparr>tasks = Some [example_task 0 0 0, example_task 1 5 3], nextID = 2\<rparr>"
  have u: "inMemory_Update ?m (example_task 1 5 3) = (None, ?m')"
    by (simp add: inMemory_Update_def example_task_def)
  have d: "ID ([example_task 0 0 0, example_task 1 0 0] ! 0) \<noteq> ID (example_task 1 5 3)"
    by (simp add: example_task_def)
  from C9_update_keeps_positions [OF u] u d show ?thesis
    by simp
qed

subsection \<open>C10: the listing of no tasks\<close>

text \<open>
  Claim C10 says that the \<^verbatim>\<open>tasks\<close> field of a listing is \<^verbatim>\<open>null\<close> whenever the
  store holds no tasks. A store emptied by \<^verbatim>\<open>Delete\<close> holds an empty slice that is
  not nil: after one create and the delete of that task, the plain listing writes an
  empty array.
\<close>

theorem C10_emptied_store_lists_empty_array:
  "inMemory_Count (exec NewManager [OpCreate ''a'', OpDelete 0]) = 0
   \<and> written (fst (RestAPI (exec NewManager [OpCreate ''a'', OpDelete 0]) (list_request [] [])))
       = TasksBody (JArray [])"
  by (simp add: inMemory_Count_def NewManager_def inMemory_Create_def inMemory_Delete_def
      append1_def RestAPI_list_request readAll_def inMemory_All_def list_request_query
      filters_def sorters_def json_Encode_slice_def Let_def)

text \<open>
  Claim C10, amended: a list-all request is answered with status 200 and a
  \<^verbatim>\<open>tasks\<close> field, and that field is \<^verbatim>\<open>null\<close> exactly when either the selected
  filter is one of the presets and no stored task passes it, or no filter preset is
  selected and the store's slice is still nil (nothing has been created yet). Without
  a filter preset, a store whose slice is empty but not nil is listed as an empty array.
\<close>

theorem C10_null_tasks_field:
  "(\<exists>j. RestAPI m (list_request f s)
          = (\<lparr>code = 200, written = TasksBody j\<rparr>, snd (readAll m (list_request f s))))
   \<and> (written (fst (RestAPI m (list_request f s))) = TasksBody JNull \<longleftrightarrow>
        (case filters f of
           Some byFieldEq \<Rightarrow> filter byFieldEq (elems (tasks m)) = []
         | None \<Rightarrow> tasks m = None))
   \<and> (filters f = None \<and> tasks m = Some [] \<longrightarrow>
        written (fst (RestAPI m (list_request f s))) = TasksBody (JArray []))"
  unfolding RestAPI_list_request
  by (auto simp: readAll_def inMemory_All_def Let_def Filter_Tasks_eq json_Encode_slice_def
      list_request_query Sort_Tasks_Nil split: option.splits)

text \<open>
  Claim C10, an instance: the store emptied by a delete, listed without a filter and
  sorted by date.
\<close>

theorem C10_null_tasks_field_witness:
  "filters ''none'' = None \<and> tasks \<lparr>tasks = Some [], nextID = 1\<rparr> = Some []
   \<and> written (fst (RestAPI \<lparr>tasks = Some [], nextID = 1\<rparr> (list_request ''none'' ''dateAsc'')))
       = TasksBody (JArray [])"
proof -
  have a: "filters ''none'' = None \<and> tasks \<lparr>tasks = Some [], nextID = 1\<rparr> = Some []"
    by (simp add: filters_def)
  from a C10_null_tasks_field [of "\<lparr>tasks = Some [], nextID = 1\<rparr>" "''none''" "''dateAsc''"]
  show ?thesis
    by blast
qed

end
